theory Spec2Isabelle
  imports Complex_Main "HOL-Library.Word"
begin

unbundle bit_operations_syntax

section \<open>The trial-division oracle\<close>

text \<open>
  \<^verbatim>\<open>is_prime(n)\<close> of \<^verbatim>\<open>simple_finder.py\<close>. Python integers are unbounded, so they are
  \<open>int\<close>; Python's \<^verbatim>\<open>%\<close> takes the sign of the divisor, as \<open>mod\<close> on \<open>int\<close> does.
  The \<^verbatim>\<open>while i * i <= n\<close> loop is the recursive function \<open>is_prime_loop\<close>; the source
  enters it with \<open>i = 5\<close> only, so the divisors \<open>i\<close> and \<open>i + 2\<close> are never zero.
\<close>

function is_prime_loop :: "int \<Rightarrow> int \<Rightarrow> bool" where
  "is_prime_loop n i =
     (if i * i \<le> n
      then (if n mod i = 0 \<or> n mod (i + 2) = 0 then False
            else is_prime_loop n (i + 6))
      else True)"
  by pat_completeness auto
termination
proof (relation "measure (\<lambda>(n, i). nat (n + 6 - i))")
  show "wf (measure (\<lambda>(n, i). nat (n + 6 - i)))" by simp
next
  fix n i :: int
  assume sq: "i * i \<le> n"
  have "i \<le> i * i"
  proof (cases "i \<le> 0")
    case True
    then show ?thesis by (meson order_trans zero_le_square)
  next
    case False
    then have "1 * i \<le> i * i" by (intro mult_right_mono) auto
    then show ?thesis by simp
  qed
  with sq have "i \<le> n" by linarith
  then show "((n, i + 6), (n, i)) \<in> measure (\<lambda>(n, i). nat (n + 6 - i))" by simp
qed

declare is_prime_loop.simps [simp del]

definition is_prime :: "int \<Rightarrow> bool" where
  "is_prime n =
     (if n \<le> 1 then False
      else if n \<le> 3 then True
      else if n mod 2 = 0 \<or> n mod 3 = 0 then False
      else is_prime_loop n 5)"

text \<open>
  Primality as the specification words it: at least two, and no divisor strictly
  between one and the number itself.
\<close>

definition prime_spec :: "int \<Rightarrow> bool" where
  "prime_spec n \<longleftrightarrow> 2 \<le> n \<and> (\<forall>d \<in> {1<..<n}. \<not> d dvd n)"

section \<open>The packed index and its loader\<close>

text \<open>
  The module-level variable \<^verbatim>\<open>primesdb_data\<close> is either \<^verbatim>\<open>None\<close> or a byte string; it is
  passed into every function that reads it and returned by every function that may
  assign it. \<^verbatim>\<open>download_primesdb()\<close> reads the cache file or the network, which are outside
  the program; what it does to the program is one of three things, and that outcome is
  the parameter \<open>env\<close>:
  \<^item> \<open>Load_ok b\<close>: the bytes \<open>b\<close> were read from the cache file, or downloaded and saved;
    the variable is assigned and the function returns \<^verbatim>\<open>True\<close>;
  \<^item> \<open>Load_unsaved b\<close>: the bytes were downloaded and assigned, and writing the cache
    file then raised; the handler returns \<^verbatim>\<open>False\<close> with the variable assigned;
  \<^item> \<open>Load_failed\<close>: a status other than 200, or an exception before the assignment;
    the function returns \<^verbatim>\<open>False\<close> and the variable is unchanged.
\<close>

type_synonym buffer = "8 word list"

datatype load_outcome = Load_ok buffer | Load_unsaved buffer | Load_failed

definition download_primesdb :: "load_outcome \<Rightarrow> buffer option \<Rightarrow> bool \<times> buffer option" where
  "download_primesdb env primesdb_data =
     (case env of
        Load_ok b \<Rightarrow> (True, Some b)
      | Load_unsaved b \<Rightarrow> (False, Some b)
      | Load_failed \<Rightarrow> (False, primesdb_data))"

text \<open>
  The exceptions of the lookup: the \<^verbatim>\<open>OverflowError\<close> of \<^verbatim>\<open>decade / 2\<close>, raised when
  the quotient is too large for a double, and the \<^verbatim>\<open>KeyError\<close> of
  \<^verbatim>\<open>bit_positions[last_digit]\<close>, which is proved unreachable below.
  \<^verbatim>\<open>primesdb_data[address]\<close> is guarded by the range check of the source.
\<close>

datatype py_error = KeyError | OverflowError

text \<open>
  \<^verbatim>\<open>int(decade / 2 + 0.5) - 1\<close> is double-precision arithmetic: \<^verbatim>\<open>decade / 2\<close> is the
  double nearest to the exact quotient, \<^verbatim>\<open>+ 0.5\<close> the double nearest to the exact sum
  (both round to 53 significant bits, ties to the even significand), and \<^verbatim>\<open>int\<close>
  truncates towards zero. Every double met here is a multiple of one half, so a double
  \<open>v\<close> is represented by the integer \<open>2 * v\<close>; rounding \<open>t / 2\<close> to a double is then
  rounding the integer \<open>t\<close> to 53 significant bits.

  \<open>double_spacing a\<close> is the distance between neighbouring 53-bit values at the
  magnitude \<open>a\<close>, and \<open>round53 t\<close> is \<open>t\<close> rounded to 53 significant bits.
\<close>

function double_spacing :: "int \<Rightarrow> int" where
  "double_spacing a = (if a < 2 ^ 53 then 1 else 2 * double_spacing (a div 2))"
  by pat_completeness auto
termination
  by (relation "measure nat") auto

declare double_spacing.simps [simp del]

definition round53 :: "int \<Rightarrow> int" where
  "round53 t =
     (if \<bar>t\<bar> < 2 ^ 53 then t
      else
        let u = double_spacing \<bar>t\<bar>;
            m = \<bar>t\<bar> div u;
            r = \<bar>t\<bar> mod u;
            m' = (if 2 * r < u then m
                  else if u < 2 * r then m + 1
                  else if even m then m else m + 1)
        in sgn t * (m' * u))"

text \<open>
  The address: \<open>q2\<close> is twice the double \<^verbatim>\<open>decade / 2\<close>, which overflows when it rounds
  to \<open>2^1024\<close> or more; \<open>s2\<close> is twice the double \<^verbatim>\<open>decade / 2 + 0.5\<close>.
\<close>

definition primesdb_address :: "int \<Rightarrow> py_error + int" where
  "primesdb_address decade =
     (let q2 = round53 decade in
      if 2 ^ 1025 \<le> \<bar>q2\<bar> then Inl OverflowError
      else
        let s2 = round53 (q2 + 1) in
        Inr ((if 0 \<le> s2 then s2 div 2 else - (- s2 div 2)) - 1))"

definition bit_positions :: "int \<rightharpoonup> nat" where
  "bit_positions = [1 \<mapsto> 0, 3 \<mapsto> 1, 7 \<mapsto> 2, 9 \<mapsto> 3]"

text \<open>
  The body of \<^verbatim>\<open>is_prime_primesdb\<close> from the comment "use the PrimesDB algorithm" on,
  with the loaded buffer as a parameter.
\<close>

definition primesdb_check :: "buffer \<Rightarrow> int \<Rightarrow> py_error + bool" where
  "primesdb_check buf number =
     (if number < 2 then Inr False
      else if number = 2 \<or> number = 3 \<or> number = 5 \<or> number = 7 then Inr True
      else if number mod 2 = 0 \<or> number mod 3 = 0 \<or> number mod 5 = 0 then Inr False
      else
        let last_digit = number mod 10 in
        if last_digit \<notin> set [1, 3, 7, 9] then Inr False
        else
          let decade = number div 10 in
          (case primesdb_address decade of
             Inl e \<Rightarrow> Inl e
           | Inr address \<Rightarrow>
               if address < 0 \<or> address \<ge> int (length buf) then Inr (is_prime number)
               else
                 (case bit_positions last_digit of
                    None \<Rightarrow> Inl KeyError
                  | Some bit_pos0 \<Rightarrow>
                      let bit_pos = (if decade mod 2 = 0 then bit_pos0 + 4 else bit_pos0);
                          byte_value = uint (buf ! nat address);
                          is_prime_value = (drop_bit bit_pos byte_value) AND 1
                      in Inr (is_prime_value = 1))))"

text \<open>
  \<^verbatim>\<open>is_prime_primesdb(number)\<close>: load the buffer when there is none; when that fails,
  answer with the oracle. \<^verbatim>\<open>download_primesdb\<close> returns \<^verbatim>\<open>True\<close> only after assigning
  the variable, so the last case covers exactly its \<^verbatim>\<open>False\<close> results.
\<close>

definition is_prime_primesdb ::
  "load_outcome \<Rightarrow> buffer option \<Rightarrow> int \<Rightarrow> (py_error + bool) \<times> buffer option" where
  "is_prime_primesdb env primesdb_data number =
     (case primesdb_data of
        Some buf \<Rightarrow> (primesdb_check buf number, Some buf)
      | None \<Rightarrow>
          (case download_primesdb env None of
             (True, Some buf) \<Rightarrow> (primesdb_check buf number, Some buf)
           | (_, st) \<Rightarrow> (Inr (is_prime number), st)))"

section \<open>The nearest-prime scanner\<close>

text \<open>
  The \<^verbatim>\<open>while\<close> loop of \<^verbatim>\<open>find_primes_near\<close>, with its local variables \<^verbatim>\<open>step\<close>,
  \<^verbatim>\<open>current\<close> and \<^verbatim>\<open>result\<close> as parameters. Nothing in the loop itself bounds the
  number of iterations for an arbitrary \<open>step\<close>, so it is a partial function: \<open>None\<close>
  is the loop that never exits. An exception raised by the lookup leaves the loop.
\<close>

partial_function (option) scan_loop ::
  "load_outcome \<Rightarrow> int \<Rightarrow> int \<Rightarrow> buffer option \<Rightarrow> int \<Rightarrow> int list
     \<Rightarrow> ((py_error + int list) \<times> buffer option) option" where
  "scan_loop env count step primesdb_data current result =
     (if int (length result) < count \<and> current > 1 \<and> current < 10 ^ 10
      then
        (case is_prime_primesdb env primesdb_data current of
           (Inl e, st) \<Rightarrow> Some (Inl e, st)
         | (Inr b, st) \<Rightarrow>
             scan_loop env count step st (current + step)
               (if b then result @ [current] else result))
      else Some (Inr result, primesdb_data))"

declare scan_loop.simps [code]

definition find_primes_near ::
  "load_outcome \<Rightarrow> buffer option \<Rightarrow> int \<Rightarrow> int \<Rightarrow> string
     \<Rightarrow> ((py_error + int list) \<times> buffer option) option" where
  "find_primes_near env primesdb_data number count direction =
     (case (case primesdb_data of
              None \<Rightarrow> download_primesdb env None
            | Some buf \<Rightarrow> (True, Some buf)) of
        (False, st) \<Rightarrow> Some (Inr [], st)
      | (True, st) \<Rightarrow>
          let step = (if direction = ''larger'' then 1 else - 1);
              current = (if direction = ''smaller'' then number - 1 else number + 1)
          in scan_loop env count step st current [])"

section \<open>Base-36 conversion\<close>

definition chars :: string where
  "chars = ''0123456789ABCDEFGHIJKLMNOPQRSTUVWXYZ''"

function to_base36_loop :: "int \<Rightarrow> string \<Rightarrow> string" where
  "to_base36_loop number result =
     (if number > 0
      then to_base36_loop (number div 36) (chars ! nat (number mod 36) # result)
      else result)"
  by pat_completeness auto
termination
  by (relation "measure (\<lambda>(number, result). nat number)") auto

declare to_base36_loop.simps [simp del]

definition to_base36 :: "int \<Rightarrow> string" where
  "to_base36 number = (if number = 0 then ''0'' else to_base36_loop number [])"

text \<open>
  \<^verbatim>\<open>to_base10(text)\<close>. A \<open>char\<close> is a code point below 256. For ASCII characters
  \<^verbatim>\<open>isdigit\<close> holds exactly of \<open>0\<close> to \<open>9\<close> and \<^verbatim>\<open>upper\<close> changes exactly \<open>a\<close> to \<open>z\<close>;
  Python's Unicode tables for the other characters are not part of this model, and a
  text that holds one is answered \<open>Inl (Non_ascii c)\<close>: outside the model, whatever the
  source does there.
\<close>

datatype unmodelled = Non_ascii char

definition py_isdigit :: "char \<Rightarrow> bool" where
  "py_isdigit c \<longleftrightarrow> 48 \<le> (of_char c :: int) \<and> (of_char c :: int) \<le> 57"

definition py_upper :: "char \<Rightarrow> char" where
  "py_upper c =
     (if 97 \<le> (of_char c :: int) \<and> (of_char c :: int) \<le> 122
      then char_of (of_char c - 32 :: int) else c)"

fun to_base10_loop :: "string \<Rightarrow> int \<Rightarrow> unmodelled + int" where
  "to_base10_loop [] result = Inr result"
| "to_base10_loop (char # text) result =
     (if 128 \<le> (of_char char :: int) then Inl (Non_ascii char)
      else
        let v = (if py_isdigit char then of_char char - 48
                 else of_char (py_upper char) - of_char CHR ''A'' + 10)
        in to_base10_loop text (result * 36 + v))"

definition to_base10 :: "string \<Rightarrow> unmodelled + int" where
  "to_base10 text = to_base10_loop text 0"

section \<open>The closest-primes aggregator\<close>

text \<open>
  \<^verbatim>\<open>str(n)\<close> of an integer, the built-in the aggregator labels a prime with when the
  plate has no letters: decimal digits, most significant first, \<open>-\<close> before a negative
  number.
\<close>

function py_str_loop :: "int \<Rightarrow> string \<Rightarrow> string" where
  "py_str_loop n acc =
     (if n > 0 then py_str_loop (n div 10) (char_of (48 + n mod 10) # acc) else acc)"
  by pat_completeness auto
termination
  by (relation "measure (\<lambda>(n, acc). nat n)") auto

declare py_str_loop.simps [simp del]

definition py_str :: "int \<Rightarrow> string" where
  "py_str n =
     (if n = 0 then ''0''
      else if n < 0 then CHR ''-'' # py_str_loop (- n) []
      else py_str_loop n [])"

text \<open>\<^verbatim>\<open>xs[:k]\<close>: the first \<open>k\<close> elements, or all but the last \<open>-k\<close> when \<open>k\<close> is negative.\<close>

definition py_slice_to :: "'a list \<Rightarrow> int \<Rightarrow> 'a list" where
  "py_slice_to xs k =
     (if 0 \<le> k then take (nat k) xs else take (length xs - nat (- k)) xs)"

text \<open>The dictionaries of the result list, one record each.\<close>

record closest_entry =
  prime_base10 :: int
  prime_base36 :: string
  distance :: int

text \<open>
  \<^verbatim>\<open>find_closest_primes(number, count, has_letters)\<close>. The two scans run one after the
  other on the same global; \<^verbatim>\<open>list.sort(key=...)\<close> is a stable sort, as \<open>sort_key\<close> is;
  the \<^verbatim>\<open>except Exception\<close> handler returns the empty list. Logging is left out.
\<close>

definition find_closest_primes ::
  "load_outcome \<Rightarrow> buffer option \<Rightarrow> int \<Rightarrow> int \<Rightarrow> bool
     \<Rightarrow> (closest_entry list \<times> buffer option) option" where
  "find_closest_primes env primesdb_data number count has_letters =
     (case find_primes_near env primesdb_data number count ''larger'' of
        None \<Rightarrow> None
      | Some (Inl e, st1) \<Rightarrow> Some ([], st1)
      | Some (Inr larger_primes, st1) \<Rightarrow>
          (case find_primes_near env st1 number count ''smaller'' of
             None \<Rightarrow> None
           | Some (Inl e, st2) \<Rightarrow> Some ([], st2)
           | Some (Inr smaller_primes, st2) \<Rightarrow>
               let result = map (\<lambda>prime. (prime, prime - number)) larger_primes
                          @ map (\<lambda>prime. (prime, number - prime)) smaller_primes;
                   result = sort_key snd result;
                   result = py_slice_to result count
               in Some (map (\<lambda>(prime, distance).
                              \<lparr>prime_base10 = prime,
                               prime_base36 =
                                 (if has_letters then to_base36 prime else py_str prime),
                               distance = distance\<rparr>) result, st2)))"

section \<open>Correctness of the oracle\<close>

lemma no_small_divisor_step:
  fixes n i :: int
  assumes i6: "i mod 6 = 5" and n2: "n mod 2 \<noteq> 0" and n3: "n mod 3 \<noteq> 0"
    and ni: "n mod i \<noteq> 0" and ni2: "n mod (i + 2) \<noteq> 0"
    and below: "\<forall>d. 1 < d \<and> d < i \<longrightarrow> \<not> d dvd n"
  shows "\<forall>d. 1 < d \<and> d < i + 6 \<longrightarrow> \<not> d dvd n"
proof (intro allI impI)
  fix d assume d: "1 < d \<and> d < i + 6"
  show "\<not> d dvd n"
  proof
    assume dn: "d dvd n"
    from n2 have two: "\<not> 2 dvd n" by presburger
    from n3 have three: "\<not> 3 dvd n" by presburger
    from ni have a: "\<not> i dvd n" by (simp add: dvd_eq_mod_eq_0)
    from ni2 have b: "\<not> (i + 2) dvd n" by (simp add: dvd_eq_mod_eq_0)
    from below d dn have "i \<le> d" by (meson not_le)
    moreover from a b dn have "d \<noteq> i" "d \<noteq> i + 2" by auto
    ultimately have "d = i + 1 \<or> d = i + 3 \<or> d = i + 4 \<or> d = i + 5"
      using d by arith
    then have "2 dvd d \<or> 3 dvd d" using i6 by presburger
    with dn two three show False using dvd_trans by blast
  qed
qed

lemma no_divisor_below_root:
  fixes n i :: int
  assumes i: "0 < i" and root: "n < i * i"
    and below: "\<forall>d. 1 < d \<and> d < i \<longrightarrow> \<not> d dvd n" and d: "1 < d" "d < n"
  shows "\<not> d dvd n"
proof
  assume dn: "d dvd n"
  then obtain e where e: "n = d * e" by (auto simp: dvd_def)
  have "1 < e"
  proof (rule ccontr)
    assume "\<not> 1 < e"
    then have "e \<le> 1" by simp
    with d have "d * e \<le> d * 1" by (intro mult_left_mono) auto
    with e d show False by simp
  qed
  moreover have "e dvd n" using e by simp
  ultimately have "i \<le> e" using below by (meson not_le)
  moreover from below d dn have "i \<le> d" by (meson not_le)
  ultimately have "i * i \<le> d * e" using i by (intro mult_mono) auto
  with e root show False by simp
qed

lemma is_prime_loop_correct:
  fixes n i :: int
  assumes "5 \<le> i" and "i mod 6 = 5" and "n mod 2 \<noteq> 0" and "n mod 3 \<noteq> 0"
    and "\<forall>d. 1 < d \<and> d < i \<longrightarrow> \<not> d dvd n"
  shows "is_prime_loop n i \<longleftrightarrow> (\<forall>d. 1 < d \<and> d < n \<longrightarrow> \<not> d dvd n)"
  using assms
proof (induction n i rule: is_prime_loop.induct)
  case (1 n i)
  show ?case
  proof (cases "i * i \<le> n")
    case False
    then have "is_prime_loop n i" by (simp add: is_prime_loop.simps)
    moreover have "\<forall>d. 1 < d \<and> d < n \<longrightarrow> \<not> d dvd n"
      using no_divisor_below_root [of i n] False "1.prems" by auto
    ultimately show ?thesis by simp
  next
    case True
    have "5 * i \<le> i * i" using "1.prems"(1) by (intro mult_right_mono) auto
    with True "1.prems"(1) have lt: "i < n" "i + 2 < n" by linarith+
    show ?thesis
    proof (cases "n mod i = 0 \<or> n mod (i + 2) = 0")
      case True
      with \<open>i * i \<le> n\<close> have "\<not> is_prime_loop n i" by (simp add: is_prime_loop.simps)
      moreover from True have "i dvd n \<or> (i + 2) dvd n" by (auto simp: dvd_eq_mod_eq_0)
      then have "\<exists>d. 1 < d \<and> d < n \<and> d dvd n"
      proof
        assume "i dvd n"
        with lt "1.prems"(1) have "1 < i \<and> i < n \<and> i dvd n" by simp
        then show ?thesis by blast
      next
        assume "(i + 2) dvd n"
        with lt "1.prems"(1) have "1 < i + 2 \<and> i + 2 < n \<and> (i + 2) dvd n" by simp
        then show ?thesis by blast
      qed
      ultimately show ?thesis by blast
    next
      case False
      then have a: "n mod i \<noteq> 0" "n mod (i + 2) \<noteq> 0" by auto
      have step: "\<forall>d. 1 < d \<and> d < i + 6 \<longrightarrow> \<not> d dvd n"
        using no_small_divisor_step [OF "1.prems"(2,3,4) a "1.prems"(5)] .
      have "(i + 6) mod 6 = 5" using "1.prems"(2) by presburger
      with "1.IH" [OF True False] "1.prems" step
      have "is_prime_loop n (i + 6) \<longleftrightarrow> (\<forall>d. 1 < d \<and> d < n \<longrightarrow> \<not> d dvd n)" by simp
      moreover have "is_prime_loop n i = is_prime_loop n (i + 6)"
        using True False by (subst is_prime_loop.simps) simp
      ultimately show ?thesis by simp
    qed
  qed
qed

lemma is_prime_iff_prime_spec: "is_prime n \<longleftrightarrow> prime_spec n"
proof -
  consider "n \<le> 1" | "n = 2 \<or> n = 3" | "3 < n" "n mod 2 = 0 \<or> n mod 3 = 0"
    | "3 < n" "n mod 2 \<noteq> 0" "n mod 3 \<noteq> 0" by linarith
  then show ?thesis
  proof cases
    case 1
    then show ?thesis by (simp add: is_prime_def prime_spec_def)
  next
    case 2
    have "\<not> d dvd n" if "d \<in> {1<..<n}" for d
    proof -
      from that 2 have "n = 3 \<and> d = 2" by auto
      then show ?thesis by simp
    qed
    with 2 show ?thesis by (auto simp: is_prime_def prime_spec_def)
  next
    case 3
    then have "2 dvd n \<or> 3 dvd n" by presburger
    with 3 have "\<exists>d \<in> {1<..<n}. d dvd n" by auto
    with 3 show ?thesis by (auto simp: is_prime_def prime_spec_def)
  next
    case 4
    have "\<forall>d. 1 < d \<and> d < 5 \<longrightarrow> \<not> d dvd n"
    proof (intro allI impI)
      fix d :: int assume "1 < d \<and> d < 5"
      then have "d = 2 \<or> d = 3 \<or> d = 4" by arith
      with 4 show "\<not> d dvd n" by presburger
    qed
    from is_prime_loop_correct [OF _ _ 4(2,3) this]
    have "is_prime_loop n 5 \<longleftrightarrow> (\<forall>d. 1 < d \<and> d < n \<longrightarrow> \<not> d dvd n)" by simp
    with 4 show ?thesis by (auto simp: is_prime_def prime_spec_def)
  qed
qed

text \<open>
  Claim C1. For every integer \<open>n\<close> (so for every non-negative one), \<open>is_prime n\<close> holds
  exactly when \<open>n\<close> is prime: \<open>n \<ge> 2\<close> with no divisor strictly between 1 and \<open>n\<close>.
  In particular \<open>n \<le> 1\<close> gives false, 2 and 3 give true, and every other multiple of
  2 or of 3 gives false.
\<close>

theorem is_prime_correct:
  "(is_prime n \<longleftrightarrow> prime_spec n)
   \<and> (n \<le> 1 \<longrightarrow> \<not> is_prime n)
   \<and> (n = 2 \<or> n = 3 \<longrightarrow> is_prime n)
   \<and> ((n mod 2 = 0 \<or> n mod 3 = 0) \<and> n \<noteq> 2 \<and> n \<noteq> 3 \<longrightarrow> \<not> is_prime n)"
proof -
  have "\<not> is_prime n" if "n mod 2 = 0 \<or> n mod 3 = 0" "n \<noteq> 2" "n \<noteq> 3"
    using that by (auto simp: is_prime_def)
  then show ?thesis
    using is_prime_iff_prime_spec [of n] by (auto simp: is_prime_def)
qed

theorem is_prime_correct_witness:
  "prime_spec 7 \<and> is_prime 7 \<and> \<not> prime_spec 25 \<and> (1::int) \<le> 1 \<and> \<not> is_prime 1
   \<and> is_prime 2 \<and> (9::int) mod 3 = 0 \<and> \<not> is_prime 9"
  using is_prime_correct [of 7] is_prime_correct [of 25] is_prime_correct [of 1]
    is_prime_correct [of 2] is_prime_correct [of 9]
  by (simp add: is_prime_def is_prime_loop.simps)

section \<open>Facts about the lookup and the scanner loop\<close>

lemma round53_small: "\<bar>t\<bar> < 2 ^ 53 \<Longrightarrow> round53 t = t"
  by (simp add: round53_def)

lemma round53_2_53: "round53 (2 ^ 53) = 2 ^ 53"
  by code_simp

lemma floor_half_up:
  "\<lfloor>real_of_int decade / 2 + 0.5\<rfloor> = (decade + 1) div 2"
proof -
  have "real_of_int decade / 2 + 0.5 = real_of_int (decade + 1) / real_of_int 2" by simp
  then show ?thesis by (simp only: floor_divide_of_int_eq)
qed

text \<open>
  Below \<open>2^53\<close> the double arithmetic is exact: the address is the one the formula
  gives in exact arithmetic.
\<close>

lemma primesdb_address_exact:
  assumes "0 \<le> decade" and "decade < 2 ^ 53"
  shows "primesdb_address decade = Inr ((decade + 1) div 2 - 1)"
proof -
  have q: "round53 decade = decade" using assms by (intro round53_small) simp
  have s: "round53 (decade + 1) = decade + 1"
  proof (cases "decade + 1 < 2 ^ 53")
    case True
    with assms show ?thesis by (intro round53_small) simp
  next
    case False
    with assms have "decade + 1 = 2 ^ 53" by simp
    then show ?thesis by (simp only: round53_2_53)
  qed
  have "(2::int) ^ 53 < 2 ^ 1025" by simp
  with assms have "\<not> 2 ^ 1025 \<le> \<bar>decade\<bar>" by linarith
  with assms show ?thesis by (simp add: primesdb_address_def q s)
qed

lemma bit_positions_some:
  "last_digit \<in> set [1, 3, 7, 9] \<Longrightarrow> \<exists>p. bit_positions last_digit = Some p"
  by (auto simp: bit_positions_def)

lemma primesdb_check_no_error:
  assumes "number div 10 < 2 ^ 53"
  shows "\<exists>b. primesdb_check buf number = Inr b"
proof (cases "2 \<le> number")
  case False
  then have "primesdb_check buf number = Inr False" by (simp add: primesdb_check_def)
  then show ?thesis by blast
next
  case True
  then have "0 \<le> number div 10" by simp
  from primesdb_address_exact [OF this assms]
  have a: "primesdb_address (number div 10) = Inr ((number div 10 + 1) div 2 - 1)" .
  show ?thesis
  proof (cases "number mod 10 \<in> set [1, 3, 7, 9]")
    case False
    then show ?thesis by (auto simp: primesdb_check_def Let_def simp del: set_simps)
  next
    case d: True
    then obtain p where "bit_positions (number mod 10) = Some p"
      using bit_positions_some by blast
    with d a show ?thesis by (auto simp: primesdb_check_def Let_def simp del: set_simps)
  qed
qed

lemma is_prime_primesdb_loaded:
  "is_prime_primesdb env (Some buf) number = (primesdb_check buf number, Some buf)"
  by (simp add: is_prime_primesdb_def)

lemma scan_loop_exit:
  "\<not> (int (length result) < count \<and> 1 < current \<and> current < 10 ^ 10) \<Longrightarrow>
   scan_loop env count step st current result = Some (Inr result, st)"
  by (subst scan_loop.simps) auto

lemma scan_loop_iterate:
  assumes "int (length result) < count" "1 < current" "current < 10 ^ 10"
  shows "scan_loop env count step (Some buf) current result =
         scan_loop env count step (Some buf) (current + step)
           (if primesdb_check buf current = Inr True then result @ [current] else result)"
proof -
  have "current = 10 * (current div 10) + current mod 10" by simp
  moreover have "0 \<le> current mod 10" by simp
  ultimately have "10 * (current div 10) \<le> current" by linarith
  moreover have "(10::int) ^ 10 < 10 * 2 ^ 53" by simp
  ultimately have "current div 10 < 2 ^ 53" using assms(3) by linarith
  then obtain b where b: "primesdb_check buf current = Inr b"
    using primesdb_check_no_error by blast
  show ?thesis
    using assms b by (subst scan_loop.simps) (simp add: is_prime_primesdb_loaded)
qed

lemma scan_loop_total:
  assumes step: "step = 1 \<or> step = - 1"
    and init: "I current result"
    and keep: "\<And>c r. I c r \<Longrightarrow> int (length r) < count \<Longrightarrow> 1 < c \<Longrightarrow> c < 10 ^ 10 \<Longrightarrow>
                 I (c + step) (if primesdb_check buf c = Inr True then r @ [c] else r)"
  shows "\<exists>r c. scan_loop env count step (Some buf) current result = Some (Inr r, Some buf)
           \<and> I c r \<and> \<not> (int (length r) < count \<and> 1 < c \<and> c < 10 ^ 10)"
  using init
proof (induction "if step = 1 then nat (10 ^ 10 - current) else nat current"
    arbitrary: current result rule: less_induct)
  case less
  show ?case
  proof (cases "int (length result) < count \<and> 1 < current \<and> current < 10 ^ 10")
    case False
    then have "scan_loop env count step (Some buf) current result = Some (Inr result, Some buf)"
      by (rule scan_loop_exit)
    with False less.prems show ?thesis by blast
  next
    case True
    let ?r = "if primesdb_check buf current = Inr True then result @ [current] else result"
    have eq: "scan_loop env count step (Some buf) current result =
              scan_loop env count step (Some buf) (current + step) ?r"
      using True by (intro scan_loop_iterate) auto
    have smaller: "(if step = 1 then nat (10 ^ 10 - (current + step)) else nat (current + step))
                 < (if step = 1 then nat (10 ^ 10 - current) else nat current)"
      using True step by auto
    have "I (current + step) ?r" using keep [OF less.prems] True by simp
    from less.hyps [OF smaller this] eq show ?thesis by simp
  qed
qed

lemma fast_path_agrees:
  assumes "number < 2 \<or> number = 2 \<or> number = 3 \<or> number = 5 \<or> number = 7
           \<or> number mod 2 = 0 \<or> number mod 3 = 0 \<or> number mod 5 = 0"
  shows "is_prime number \<longleftrightarrow> number = 2 \<or> number = 3 \<or> number = 5 \<or> number = 7"
proof -
  consider "number < 2" | "number = 2 \<or> number = 3" | "number = 5 \<or> number = 7"
    | "3 < number" "number mod 2 = 0 \<or> number mod 3 = 0"
    | "3 < number" "number mod 2 \<noteq> 0" "number mod 3 \<noteq> 0" "number mod 5 = 0" "number \<noteq> 5"
    using assms by linarith
  then show ?thesis
  proof cases
    case 1
    then show ?thesis by (simp add: is_prime_def)
  next
    case 2
    then show ?thesis by (auto simp: is_prime_def)
  next
    case 3
    have "is_prime 5" "is_prime 7" by (simp_all add: is_prime_def is_prime_loop.simps)
    with 3 show ?thesis by auto
  next
    case 4
    then show ?thesis by (auto simp: is_prime_def)
  next
    case 5
    then have "25 \<le> number" by presburger
    with 5 have "\<not> is_prime_loop number 5" by (subst is_prime_loop.simps) simp
    with 5 \<open>25 \<le> number\<close> show ?thesis by (simp add: is_prime_def)
  qed
qed

lemma last_digit_of_survivor:
  fixes number :: int
  assumes "number mod 2 \<noteq> 0" "number mod 5 \<noteq> 0"
  shows "number mod 10 \<in> {1, 3, 7, 9}"
proof -
  from assms have "number mod 10 = 1 \<or> number mod 10 = 3 \<or> number mod 10 = 7
      \<or> number mod 10 = 9" by presburger
  then show ?thesis by auto
qed

lemma shift_mask_is_bit:
  "(drop_bit n (uint (w :: 8 word)) AND 1 = 1) \<longleftrightarrow> bit w n"
proof -
  have "(drop_bit n (uint w) AND 1 = 1) \<longleftrightarrow> odd (drop_bit n (uint w))"
    by (simp add: and_one_eq mod_2_eq_odd)
  also have "\<dots> \<longleftrightarrow> bit (uint w) n" by (simp add: bit_iff_odd_drop_bit)
  also have "\<dots> \<longleftrightarrow> bit w n" by (auto simp: bit_uint_iff dest: bit_imp_le_length)
  finally show ?thesis .
qed

lemma bit_positions_index:
  assumes "last_digit \<in> {1, 3, 7, 9}"
  shows "bit_positions last_digit = Some (length (takeWhile (\<lambda>d. d \<noteq> last_digit) [1, 3, 7, 9]))"
  using assms by (auto simp: bit_positions_def)

lemma primesdb_check_fast:
  assumes "number < 2 \<or> number = 2 \<or> number = 3 \<or> number = 5 \<or> number = 7
           \<or> number mod 2 = 0 \<or> number mod 3 = 0 \<or> number mod 5 = 0"
  shows "primesdb_check buf number = Inr (number = 2 \<or> number = 3 \<or> number = 5 \<or> number = 7)"
  using assms by (auto simp: primesdb_check_def)

lemma primesdb_check_slow:
  assumes "2 \<le> number" "number \<notin> {2, 3, 5, 7}"
    and "number mod 2 \<noteq> 0" "number mod 3 \<noteq> 0" "number mod 5 \<noteq> 0"
    and "primesdb_address (number div 10) = Inr address"
  shows "primesdb_check buf number =
         (if address < 0 \<or> int (length buf) \<le> address
          then Inr (is_prime number)
          else Inr (bit (buf ! nat address)
                 (length (takeWhile (\<lambda>d. d \<noteq> number mod 10) [1, 3, 7, 9])
                  + (if even (number div 10) then 4 else 0))))"
proof -
  have digit: "number mod 10 \<in> {1, 3, 7, 9}"
    using assms(3,5) by (rule last_digit_of_survivor)
  then have "number mod 10 \<in> set [1, 3, 7, 9]" by simp
  moreover note bit_positions_index [OF digit]
  moreover have "(number div 10) mod 2 = 0 \<longleftrightarrow> even (number div 10)" by presburger
  ultimately show ?thesis
    using assms
    by (simp add: primesdb_check_def Let_def shift_mask_is_bit add.commute
        del: set_simps takeWhile.simps)
qed

lemma primesdb_check_overflow:
  assumes "2 \<le> number" "number \<notin> {2, 3, 5, 7}"
    and "number mod 2 \<noteq> 0" "number mod 3 \<noteq> 0" "number mod 5 \<noteq> 0"
    and "primesdb_address (number div 10) = Inl e"
  shows "primesdb_check buf number = Inl e"
proof -
  have "number mod 10 \<in> {1, 3, 7, 9}"
    using assms(3,5) by (rule last_digit_of_survivor)
  then have "number mod 10 \<in> set [1, 3, 7, 9]" by simp
  then show ?thesis
    using assms by (simp add: primesdb_check_def Let_def del: set_simps)
qed

lemma accepted_is_two_or_odd:
  assumes "primesdb_check buf n = Inr True"
  shows "n = 2 \<or> (3 \<le> n \<and> n mod 2 = 1)"
proof (cases "n < 2 \<or> n = 2 \<or> n = 3 \<or> n = 5 \<or> n = 7
           \<or> n mod 2 = 0 \<or> n mod 3 = 0 \<or> n mod 5 = 0")
  case True
  from assms primesdb_check_fast [OF True, of buf]
  have "n = 2 \<or> n = 3 \<or> n = 5 \<or> n = 7" by simp
  then show ?thesis by auto
next
  case False
  then have "2 \<le> n" "n \<noteq> 2" "n mod 2 \<noteq> 0" by auto
  then show ?thesis by presburger
qed

lemma accepted_neighbours:
  assumes "primesdb_check buf n = Inr True" and "primesdb_check buf (n + 1) = Inr True"
  shows "n = 2"
proof -
  from accepted_is_two_or_odd [OF assms(1)] accepted_is_two_or_odd [OF assms(2)]
  show ?thesis by presburger
qed

section \<open>The scanner: termination and direction\<close>

lemma find_primes_near_scan:
  assumes "primesdb_data = Some buf \<or> (primesdb_data = None \<and> env = Load_ok buf)"
  shows "find_primes_near env primesdb_data number count direction =
         scan_loop env count (if direction = ''larger'' then 1 else - 1) (Some buf)
           (if direction = ''smaller'' then number - 1 else number + 1) []"
  using assms by (auto simp: find_primes_near_def download_primesdb_def)

lemma find_primes_near_unavailable:
  assumes "primesdb_data = None" and "\<forall>b. env \<noteq> Load_ok b"
  shows "find_primes_near env primesdb_data number count direction =
         Some (Inr [], snd (download_primesdb env None))"
  using assms by (cases env) (auto simp: find_primes_near_def download_primesdb_def)

lemma find_primes_near_cases:
  obtains buf where "primesdb_data = Some buf \<or> (primesdb_data = None \<and> env = Load_ok buf)"
  | "primesdb_data = None" "\<forall>b. env \<noteq> Load_ok b"
  by (cases primesdb_data; cases env) auto

lemma find_primes_near_total_inv:
  assumes init: "I (if direction = ''smaller'' then number - 1 else number + 1) []"
    and keep: "\<And>buf c r. I c r \<Longrightarrow> int (length r) < count \<Longrightarrow> 1 < c \<Longrightarrow> c < 10 ^ 10 \<Longrightarrow>
                 I (c + (if direction = ''larger'' then 1 else - 1))
                   (if primesdb_check buf c = Inr True then r @ [c] else r)"
  shows "\<exists>r st c. find_primes_near env primesdb_data number count direction = Some (Inr r, st)
           \<and> I c r"
proof (cases rule: find_primes_near_cases [of primesdb_data env])
  case (1 buf)
  have "\<exists>r c. scan_loop env count (if direction = ''larger'' then 1 else - 1) (Some buf)
           (if direction = ''smaller'' then number - 1 else number + 1) [] = Some (Inr r, Some buf)
           \<and> I c r \<and> \<not> (int (length r) < count \<and> 1 < c \<and> c < 10 ^ 10)"
    by (rule scan_loop_total [where I = I]) (use init keep in auto)
  with find_primes_near_scan [OF 1] show ?thesis by metis
next
  case 2
  then show ?thesis using init find_primes_near_unavailable by blast
qed

text \<open>
  Claim C8. The scanner terminates for every start value, count and direction:
  \<open>find_primes_near\<close> always returns a list, never an exception and never the
  non-terminating \<open>None\<close>. The loop itself returns from every cursor and every collected
  list when the step is \<open>+1\<close> or \<open>-1\<close>, and it exits at once, with the list collected so
  far, when the requested number of primes has been collected or the cursor is at most 1
  or at least \<open>10^10\<close>.
\<close>

theorem scanner_terminates:
  "(\<exists>r st. find_primes_near env primesdb_data number count direction = Some (Inr r, st))
   \<and> (step = 1 \<or> step = - 1 \<longrightarrow>
        (\<exists>r. scan_loop env count step (Some buf) current result = Some (Inr r, Some buf)))
   \<and> (\<not> (int (length result) < count \<and> 1 < current \<and> current < 10 ^ 10) \<longrightarrow>
        scan_loop env count step primesdb_data current result = Some (Inr result, primesdb_data))"
proof (intro conjI impI)
  show "\<exists>r st. find_primes_near env primesdb_data number count direction = Some (Inr r, st)"
    using find_primes_near_total_inv [where I = "\<lambda>c r. True"] by blast
  show "\<exists>r. scan_loop env count step (Some buf) current result = Some (Inr r, Some buf)"
    if "step = 1 \<or> step = - 1"
    using scan_loop_total [where I = "\<lambda>c r. True", OF that] by blast
  show "scan_loop env count step primesdb_data current result = Some (Inr result, primesdb_data)"
    if "\<not> (int (length result) < count \<and> 1 < current \<and> current < 10 ^ 10)"
    using that by (rule scan_loop_exit)
qed

theorem scanner_terminates_witness:
  "\<not> (int (length [5, 7 :: int]) < 2 \<and> (1::int) < 8 \<and> (8::int) < 10 ^ 10)
   \<and> scan_loop Load_failed 2 1 (Some []) 8 [5, 7] = Some (Inr [5, 7], Some [])
   \<and> (\<exists>r. scan_loop Load_failed 2 1 (Some []) 4 [] = Some (Inr r, Some []))"
  using scanner_terminates [where result = "[5, 7]" and count = 2 and current = 8
      and env = Load_failed and step = 1 and primesdb_data = "Some []"]
    scanner_terminates [where result = "[]" and count = 2 and current = 4
      and env = Load_failed and step = 1 and buf = "[]"]
  by simp

lemma larger_above:
  assumes "find_primes_near env primesdb_data number count ''larger'' = Some (Inr r, st)"
  shows "\<forall>p \<in> set r. number < p"
proof -
  have "\<exists>r st c. find_primes_near env primesdb_data number count ''larger'' = Some (Inr r, st)
          \<and> (number < c \<and> (\<forall>p \<in> set r. number < p))"
    by (rule find_primes_near_total_inv) auto
  with assms show ?thesis by auto
qed

lemma smaller_below:
  assumes "find_primes_near env primesdb_data number count ''smaller'' = Some (Inr r, st)"
  shows "\<forall>p \<in> set r. p < number"
proof -
  have "\<exists>r st c. find_primes_near env primesdb_data number count ''smaller'' = Some (Inr r, st)
          \<and> (c < number \<and> (\<forall>p \<in> set r. p < number))"
    by (rule find_primes_near_total_inv) auto
  with assms show ?thesis by auto
qed

text \<open>
  Claim C4. Every prime the upward scan (direction \<open>larger\<close>) returns is strictly
  greater than the start value, every prime the downward scan (direction \<open>smaller\<close>)
  returns is strictly less than it, and so the start value is in neither result.
\<close>

theorem scan_excludes_start:
  "(find_primes_near env primesdb_data number count ''larger'' = Some (Inr r, st) \<longrightarrow>
      (\<forall>p \<in> set r. number < p) \<and> number \<notin> set r)
   \<and> (find_primes_near env primesdb_data number count ''smaller'' = Some (Inr r, st) \<longrightarrow>
      (\<forall>p \<in> set r. p < number) \<and> number \<notin> set r)"
  using larger_above smaller_below by blast

theorem scan_excludes_start_witness:
  "find_primes_near Load_failed (Some []) 7 2 ''larger'' = Some (Inr [11, 13], Some [])
   \<and> (7::int) < 11 \<and> (7::int) < 13
   \<and> find_primes_near Load_failed (Some []) 7 2 ''smaller'' = Some (Inr [5, 3], Some [])
   \<and> (5::int) < 7 \<and> (3::int) < 7"
proof -
  have up: "find_primes_near Load_failed (Some []) 7 2 ''larger'' = Some (Inr [11, 13], Some [])"
    by code_simp
  have down: "find_primes_near Load_failed (Some []) 7 2 ''smaller'' = Some (Inr [5, 3], Some [])"
    by code_simp
  from up scan_excludes_start [of Load_failed "Some []" 7 2 "[11, 13]" "Some []"]
  have above: "\<forall>p \<in> set [11, 13]. (7::int) < p" by blast
  from down scan_excludes_start [of Load_failed "Some []" 7 2 "[5, 3]" "Some []"]
  have below: "\<forall>p \<in> set [5, 3]. p < (7::int)" by blast
  have "(7::int) < 11" "(7::int) < 13" by (rule bspec [OF above], simp)+
  moreover have "(5::int) < 7" "(3::int) < 7" by (rule bspec [OF below], simp)+
  ultimately show ?thesis using up down by blast
qed

section \<open>The packed-index lookup\<close>

lemma is_prime_primesdb_available:
  assumes "primesdb_data = Some buf \<or> (primesdb_data = None \<and> env = Load_ok buf)"
  shows "is_prime_primesdb env primesdb_data number = (primesdb_check buf number, Some buf)"
  using assms by (auto simp: is_prime_primesdb_def download_primesdb_def)

text \<open>
  From the decade \<open>2^53 + 1\<close> on the double arithmetic rounds, and the address the
  code derives is no longer the one the formula gives in exact arithmetic; for a number
  whose decade makes \<^verbatim>\<open>decade / 2\<close> overflow the lookup raises.
\<close>

lemma primesdb_address_beyond_2_53:
  "primesdb_address (2 ^ 53 + 1) = Inr (2 ^ 52 - 1)
   \<and> \<lfloor>real_of_int (2 ^ 53 + 1) / 2 + 0.5\<rfloor> - 1 = (2 ^ 52 :: int)"
proof
  show "primesdb_address (2 ^ 53 + 1) = Inr (2 ^ 52 - 1)" by code_simp
  show "\<lfloor>real_of_int (2 ^ 53 + 1) / 2 + 0.5\<rfloor> - 1 = (2 ^ 52 :: int)"
    by (simp add: floor_half_up)
qed

lemma lookup_overflow_example:
  "is_prime_primesdb Load_failed (Some []) (7 * 10 ^ 310 + 7) = (Inl OverflowError, Some [])"
  by code_simp

text \<open>
  Claim C5, amended. Let \<open>n\<close> survive the fast-path filters (\<open>n \<ge> 2\<close>, not 2, 3, 5 or 7,
  not divisible by 2, 3 or 5; its last digit is then one of 1, 3, 7, 9), with a decade
  \<open>n div 10\<close> below \<open>2^53\<close>, a buffer loaded or loadable, and the address
  \<open>floor((n div 10)/2 + 0.5) - 1\<close> less than the length of the buffer. Then this is
  the address the lookup derives, it is not negative, and the lookup declares \<open>n\<close>
  prime exactly when the byte at that address has the bit set whose position is the
  index of the last digit in the sequence (1, 3, 7, 9), plus 4 exactly when the decade
  is even. For \<open>n = 31\<close> the address is 1 and the bit position is 0.
\<close>

theorem packed_lookup_reads_bit:
  "(2 \<le> n \<and> n \<notin> {2, 3, 5, 7} \<and> n mod 2 \<noteq> 0 \<and> n mod 3 \<noteq> 0 \<and> n mod 5 \<noteq> 0
      \<and> n div 10 < 2 ^ 53
      \<and> (primesdb_data = Some buf \<or> (primesdb_data = None \<and> env = Load_ok buf))
      \<and> address = \<lfloor>real_of_int (n div 10) / 2 + 0.5\<rfloor> - 1
      \<and> address < int (length buf)
      \<and> bit_pos = length (takeWhile (\<lambda>d. d \<noteq> n mod 10) [1, 3, 7, 9])
                    + (if even (n div 10) then 4 else 0)
    \<longrightarrow> n mod 10 \<in> {1, 3, 7, 9} \<and> 0 \<le> address
        \<and> primesdb_address (n div 10) = Inr address
        \<and> is_prime_primesdb env primesdb_data n
            = (Inr (bit (buf ! nat address) bit_pos), Some buf))
   \<and> \<lfloor>real_of_int (31 div 10) / 2 + 0.5\<rfloor> - 1 = (1::int)
   \<and> primesdb_address (31 div 10) = Inr 1
   \<and> length (takeWhile (\<lambda>d. d \<noteq> 31 mod 10) [1, 3, 7, 9 :: int])
       + (if even (31 div 10 :: int) then 4 else 0) = 0"
proof (intro conjI impI)
  assume h: "2 \<le> n \<and> n \<notin> {2, 3, 5, 7} \<and> n mod 2 \<noteq> 0 \<and> n mod 3 \<noteq> 0 \<and> n mod 5 \<noteq> 0
      \<and> n div 10 < 2 ^ 53
      \<and> (primesdb_data = Some buf \<or> (primesdb_data = None \<and> env = Load_ok buf))
      \<and> address = \<lfloor>real_of_int (n div 10) / 2 + 0.5\<rfloor> - 1
      \<and> address < int (length buf)
      \<and> bit_pos = length (takeWhile (\<lambda>d. d \<noteq> n mod 10) [1, 3, 7, 9])
                    + (if even (n div 10) then 4 else 0)"
  from h show "n mod 10 \<in> {1, 3, 7, 9}" using last_digit_of_survivor by blast
  from h have "2 \<le> n" "n \<noteq> 2" "n \<noteq> 3" "n \<noteq> 5" "n \<noteq> 7"
    "n mod 2 \<noteq> 0" "n mod 3 \<noteq> 0" "n mod 5 \<noteq> 0" by simp_all
  then have "11 \<le> n" by presburger
  then have d: "0 \<le> n div 10" "1 \<le> n div 10" by linarith+
  from h have small: "n div 10 < 2 ^ 53" by simp
  from h have e: "address = (n div 10 + 1) div 2 - 1" by (simp only: floor_half_up)
  with primesdb_address_exact [OF d(1) small]
  show a: "primesdb_address (n div 10) = Inr address" by simp
  from d e show nonneg: "0 \<le> address" by linarith
  from h have "is_prime_primesdb env primesdb_data n = (primesdb_check buf n, Some buf)"
    by (intro is_prime_primesdb_available) simp
  moreover have "primesdb_check buf n = Inr (bit (buf ! nat address) bit_pos)"
    using h nonneg by (subst primesdb_check_slow [OF _ _ _ _ _ a]) auto
  ultimately show "is_prime_primesdb env primesdb_data n
            = (Inr (bit (buf ! nat address) bit_pos), Some buf)" by simp
next
  show "primesdb_address (31 div 10) = Inr 1" by (simp add: primesdb_address_exact)
qed simp_all

theorem packed_lookup_reads_bit_witness:
  "is_prime_primesdb Load_failed (Some [0, 1]) 31 = (Inr (bit (1 :: 8 word) (0::nat)), Some [0, 1])
   \<and> is_prime_primesdb Load_failed (Some [0, 1]) 31 = (Inr True, Some [0, 1])"
  using packed_lookup_reads_bit [of 31 "Some [0, 1]" "[0, 1]" Load_failed 1 0]
  by simp

text \<open>
  The claim as stated, for every survivor of the filters, fails at \<open>n = 49\<close> over the
  one-byte buffer \<open>0xFF\<close>: the address is 1, where the buffer has no byte; the bit
  position is 7 (last digit 9 has index 3, the decade 4 is even), a bit the only byte
  of the buffer has set; and the lookup, which answers by trial division, declares 49
  not prime.
\<close>

theorem packed_lookup_counterexample:
  "(2::int) \<le> 49 \<and> (49::int) mod 2 \<noteq> 0 \<and> (49::int) mod 3 \<noteq> 0 \<and> (49::int) mod 5 \<noteq> 0
   \<and> \<lfloor>real_of_int (49 div 10) / 2 + 0.5\<rfloor> - 1 = (1::int)
   \<and> primesdb_address (49 div 10) = Inr 1
   \<and> length [0xFF :: 8 word] = 1
   \<and> bit_positions (49 mod 10) = Some 3 \<and> (49 div 10) mod 2 = (0::int)
   \<and> bit (0xFF :: 8 word) (3 + 4 :: nat)
   \<and> is_prime_primesdb Load_failed (Some [0xFF]) 49 = (Inr False, Some [0xFF])"
proof -
  have "primesdb_address (49 div 10) = Inr 1" by (simp add: primesdb_address_exact)
  moreover have "is_prime_primesdb Load_failed (Some [0xFF]) 49 = (Inr False, Some [0xFF])"
    by code_simp
  moreover have "bit (0xFF :: 8 word) (3 + 4 :: nat)" by code_simp
  ultimately show ?thesis by (simp add: bit_positions_def floor_half_up)
qed

text \<open>
  Claim C6. Whenever the lookup derives an address for \<open>n\<close> that is negative or at
  least the length of the loaded buffer, the combined check returns exactly
  \<open>is_prime n\<close>, with no exception, and leaves the buffer as it is. This holds for
  every integer \<open>n\<close> for which \<^verbatim>\<open>int(decade / 2 + 0.5) - 1\<close> has a value, in the
  double arithmetic of the source: the fast-path answers agree with the oracle as well.
\<close>

theorem out_of_range_falls_back:
  assumes "primesdb_data = Some buf \<or> (primesdb_data = None \<and> env = Load_ok buf)"
    and "primesdb_address (number div 10) = Inr address"
    and "address < 0 \<or> int (length buf) \<le> address"
  shows "is_prime_primesdb env primesdb_data number = (Inr (is_prime number), Some buf)"
proof -
  have "primesdb_check buf number = Inr (is_prime number)"
  proof (cases "number < 2 \<or> number = 2 \<or> number = 3 \<or> number = 5 \<or> number = 7
           \<or> number mod 2 = 0 \<or> number mod 3 = 0 \<or> number mod 5 = 0")
    case True
    then show ?thesis
      using fast_path_agrees [OF True] by (simp add: primesdb_check_fast)
  next
    case False
    then show ?thesis
      using assms(3) by (subst primesdb_check_slow [OF _ _ _ _ _ assms(2)]) auto
  qed
  with is_prime_primesdb_available [OF assms(1)] show ?thesis by simp
qed

theorem out_of_range_falls_back_witness:
  "is_prime_primesdb Load_failed (Some [0]) 97 = (Inr True, Some [0])
   \<and> is_prime_primesdb Load_failed (Some [0xFF]) 91 = (Inr False, Some [0xFF])
   \<and> is_prime_primesdb Load_failed (Some [0xFF]) 4 = (Inr False, Some [0xFF])"
proof -
  have a: "primesdb_address (97 div 10) = Inr 4" "primesdb_address (91 div 10) = Inr 4"
    "primesdb_address (4 div 10) = Inr (- 1)"
    by (simp_all add: primesdb_address_exact)
  have p: "is_prime 97" "\<not> is_prime 91" "\<not> is_prime 4"
    by (simp_all add: is_prime_def is_prime_loop.simps)
  show ?thesis
    using out_of_range_falls_back [of "Some [0]" "[0]" Load_failed 97 4]
      out_of_range_falls_back [of "Some [0xFF]" "[0xFF]" Load_failed 91 4]
      out_of_range_falls_back [of "Some [0xFF]" "[0xFF]" Load_failed 4 "- 1"]
      a p by simp
qed

section \<open>The scanner without an index\<close>

text \<open>
  Claim C2. With no buffer loaded and a failing load, the claim asks the scanner for
  the primes an oracle-based scan finds. The lookup \<open>is_prime_primesdb\<close> does answer
  with the oracle in that state, but \<open>find_primes_near\<close> returns the empty list for
  every start, count and direction, and \<open>find_closest_primes\<close> with it: from 100 the
  scan for two larger primes is empty although 101 and 103 are accepted by the lookup,
  and although the same scan over an empty loaded buffer, where every lookup ends in
  the oracle, returns 101 and 103.
\<close>

theorem unavailable_index_scan_is_empty:
  "find_primes_near Load_failed None number count direction = Some (Inr [], None)
   \<and> is_prime_primesdb Load_failed None number = (Inr (is_prime number), None)
   \<and> find_primes_near Load_failed None 100 2 ''larger'' = Some (Inr [], None)
   \<and> is_prime_primesdb Load_failed None 101 = (Inr True, None)
   \<and> is_prime_primesdb Load_failed None 103 = (Inr True, None)
   \<and> find_closest_primes Load_failed None 100 2 False = Some ([], None)
   \<and> find_primes_near Load_failed (Some []) 100 2 ''larger'' = Some (Inr [101, 103], Some [])"
proof -
  have scan: "find_primes_near Load_failed None n c d = Some (Inr [], None)" for n c d
    by (simp add: find_primes_near_def download_primesdb_def)
  have look: "is_prime_primesdb Load_failed None n = (Inr (is_prime n), None)" for n
    by (simp add: is_prime_primesdb_def download_primesdb_def)
  have "is_prime 101" "is_prime 103" by (simp_all add: is_prime_def is_prime_loop.simps)
  moreover have "find_closest_primes Load_failed None 100 2 False = Some ([], None)"
    by (simp add: find_closest_primes_def scan py_slice_to_def)
  moreover have "find_primes_near Load_failed (Some []) 100 2 ''larger''
      = Some (Inr [101, 103], Some [])"
    by code_simp
  ultimately show ?thesis using scan look by simp
qed

section \<open>Directions other than the two documented ones\<close>

text \<open>
  Claim C9, amended. For a direction other than \<open>smaller\<close> and \<open>larger\<close> the cursor
  starts at \<open>number + 1\<close> and steps by \<open>-1\<close>. With a buffer loaded or loadable, a count
  of at least 1 and \<open>number + 1\<close> below \<open>10^10\<close>, the result holds \<open>number\<close> itself
  whenever the scanner's primality check accepts \<open>number\<close>, unless \<open>number = 2\<close> and
  the count is 1; and no returned prime exceeds \<open>number + 1\<close>.
\<close>

theorem other_direction_includes_start:
  assumes dir: "direction \<noteq> ''smaller''" "direction \<noteq> ''larger''"
    and loaded: "primesdb_data = Some buf \<or> (primesdb_data = None \<and> env = Load_ok buf)"
    and accepted: "primesdb_check buf number = Inr True"
    and bound: "number + 1 < 10 ^ 10"
    and count: "1 \<le> count" "number \<noteq> 2 \<or> 2 \<le> count"
  shows "find_primes_near env primesdb_data number count direction
           = scan_loop env count (- 1) (Some buf) (number + 1) []
         \<and> (\<exists>r. find_primes_near env primesdb_data number count direction
                  = Some (Inr r, Some buf)
               \<and> number \<in> set r \<and> (\<forall>p \<in> set r. p \<le> number + 1))"
proof
  show start: "find_primes_near env primesdb_data number count direction
           = scan_loop env count (- 1) (Some buf) (number + 1) []"
    using find_primes_near_scan [OF loaded, of number count direction] dir by simp
  from accepted_is_two_or_odd [OF accepted] have n2: "2 \<le> number" by auto
  let ?r1 = "if primesdb_check buf (number + 1) = Inr True then [number + 1] else []"
  have one: "scan_loop env count (- 1) (Some buf) (number + 1) []
             = scan_loop env count (- 1) (Some buf) number ?r1"
    using scan_loop_iterate [of "[]" count "number + 1" env "- 1" buf] n2 bound count(1)
    by simp
  have len: "int (length ?r1) < count"
    using accepted_neighbours [OF accepted] count by auto
  have two: "scan_loop env count (- 1) (Some buf) number ?r1
             = scan_loop env count (- 1) (Some buf) (number - 1) (?r1 @ [number])"
    using scan_loop_iterate [of ?r1 count number env "- 1" buf] len n2 bound accepted
    by simp
  have "\<exists>r c. scan_loop env count (- 1) (Some buf) (number - 1) (?r1 @ [number])
            = Some (Inr r, Some buf)
          \<and> (number \<in> set r \<and> (\<forall>p \<in> set r. p \<le> number + 1) \<and> c \<le> number)
          \<and> \<not> (int (length r) < count \<and> 1 < c \<and> c < 10 ^ 10)"
    by (rule scan_loop_total) auto
  with start one two
  show "\<exists>r. find_primes_near env primesdb_data number count direction = Some (Inr r, Some buf)
          \<and> number \<in> set r \<and> (\<forall>p \<in> set r. p \<le> number + 1)"
    by auto
qed

text \<open>
  The claim as stated fails at \<open>number = 2\<close>, count 1: the scan starts at 3, which is
  prime, and the single requested prime is collected before the cursor reaches 2.
\<close>

theorem other_direction_counterexample:
  "''sideways'' \<noteq> ''smaller'' \<and> ''sideways'' \<noteq> ''larger'' \<and> is_prime 2
   \<and> is_prime_primesdb Load_failed (Some []) 2 = (Inr True, Some [])
   \<and> find_primes_near Load_failed (Some []) 2 1 ''sideways'' = Some (Inr [3], Some [])
   \<and> (2::int) \<notin> set [3]"
  by code_simp

theorem other_direction_includes_start_witness:
  "primesdb_check [] 7 = Inr True
   \<and> find_primes_near Load_failed (Some []) 7 3 ''sideways''
       = scan_loop Load_failed 3 (- 1) (Some []) (7 + 1) []
   \<and> (\<exists>r. find_primes_near Load_failed (Some []) 7 3 ''sideways'' = Some (Inr r, Some [])
          \<and> 7 \<in> set r \<and> (\<forall>p \<in> set r. p \<le> 7 + 1))"
proof -
  have c: "primesdb_check [] 7 = Inr True"
    by code_simp
  have h: "''sideways'' \<noteq> ''smaller''" "''sideways'' \<noteq> ''larger''"
    "Some [] = Some ([] :: buffer) \<or> (Some [] = (None :: buffer option) \<and> Load_failed = Load_ok [])"
    "(7::int) + 1 < 10 ^ 10" "(1::int) \<le> 3" "(7::int) \<noteq> 2 \<or> (2::int) \<le> 3"
    by simp_all
  from other_direction_includes_start [OF h(1,2,3) c h(4,5,6)] c
  show ?thesis by blast
qed

section \<open>Base-36 round trip\<close>

lemma chars_digit_value:
  "\<forall>m \<in> {0..<36::nat}. to_base10_loop [chars ! m] 0 = Inr (int m)"
  by code_simp

lemma chars_length: "length chars = 36"
  by (simp add: chars_def)

lemma to_base10_loop_single:
  "to_base10_loop [c] r =
     (case to_base10_loop [c] 0 of Inl e \<Rightarrow> Inl e | Inr v \<Rightarrow> Inr (r * 36 + v))"
  by (simp add: Let_def)

lemma to_base10_loop_digit:
  assumes "0 \<le> k" "k < 36"
  shows "to_base10_loop [chars ! nat k] r = Inr (r * 36 + k)"
proof -
  from assms have "nat k \<in> {0..<36}" by simp
  with chars_digit_value have "to_base10_loop [chars ! nat k] 0 = Inr (int (nat k))" by blast
  with assms show ?thesis by (subst to_base10_loop_single) simp
qed

lemma to_base10_loop_append:
  "to_base10_loop (xs @ ys) r =
     (case to_base10_loop xs r of Inl e \<Rightarrow> Inl e | Inr r' \<Rightarrow> to_base10_loop ys r')"
  by (induction xs arbitrary: r) (simp_all add: Let_def)

lemma to_base36_loop_step:
  assumes "0 < number"
  shows "to_base36_loop number result
         = to_base36_loop (number div 36) (chars ! nat (number mod 36) # result)"
  using assms by (subst to_base36_loop.simps) simp

lemma to_base36_loop_acc:
  "to_base36_loop number result = to_base36_loop number [] @ result"
proof (induction "nat number" arbitrary: number result rule: less_induct)
  case less
  show ?case
  proof (cases "0 < number")
    case False
    then show ?thesis by (simp add: to_base36_loop.simps)
  next
    case True
    then have lt: "nat (number div 36) < nat number" by simp
    let ?c = "chars ! nat (number mod 36)"
    have "to_base36_loop number result = to_base36_loop (number div 36) [] @ (?c # result)"
      using less.hyps [OF lt, of "?c # result"] to_base36_loop_step [OF True] by simp
    moreover have "to_base36_loop number [] = to_base36_loop (number div 36) [] @ [?c]"
      using less.hyps [OF lt, of "[?c]"] to_base36_loop_step [OF True] by simp
    ultimately show ?thesis by simp
  qed
qed

lemma to_base36_loop_snoc:
  assumes "0 < number"
  shows "to_base36_loop number [] = to_base36_loop (number div 36) [] @ [chars ! nat (number mod 36)]"
  using to_base36_loop_step [OF assms, of "[]"]
    to_base36_loop_acc [of "number div 36" "[chars ! nat (number mod 36)]"] by simp

lemma to_base10_loop_to_base36_loop:
  assumes "0 \<le> number"
  shows "to_base10_loop (to_base36_loop number []) 0 = Inr number"
  using assms
proof (induction "nat number" arbitrary: number rule: less_induct)
  case less
  show ?case
  proof (cases "0 < number")
    case False
    with less.prems have "number = 0" by simp
    then show ?thesis by (simp add: to_base36_loop.simps)
  next
    case True
    then have lt: "nat (number div 36) < nat number" and nn: "0 \<le> number div 36" by simp_all
    have digit: "0 \<le> number mod 36" "number mod 36 < 36" by simp_all
    have "to_base10_loop (to_base36_loop number []) 0
          = to_base10_loop [chars ! nat (number mod 36)] (number div 36)"
      using less.hyps [OF lt nn]
      by (simp add: to_base36_loop_snoc [OF True] to_base10_loop_append)
    also have "\<dots> = Inr (number div 36 * 36 + number mod 36)"
      using digit by (rule to_base10_loop_digit)
    finally show ?thesis by simp
  qed
qed

lemma to_base36_loop_chars:
  assumes "set result \<subseteq> set chars"
  shows "set (to_base36_loop number result) \<subseteq> set chars"
  using assms
proof (induction number result rule: to_base36_loop.induct)
  case (1 number result)
  show ?case
  proof (cases "0 < number")
    case False
    with "1.prems" show ?thesis by (simp add: to_base36_loop.simps)
  next
    case True
    have "nat (number mod 36) < length chars" by (simp add: chars_length nat_less_iff)
    then have "chars ! nat (number mod 36) \<in> set chars" by (rule nth_mem)
    with "1.prems" have "set (chars ! nat (number mod 36) # result) \<subseteq> set chars" by simp
    from "1.IH" [OF True this] show ?thesis by (simp add: to_base36_loop_step [OF True])
  qed
qed

text \<open>
  Claim C10. For every non-negative integer \<open>n\<close>, decoding the base-36 text of \<open>n\<close>
  gives \<open>n\<close> back, and that text is made of the digits 0-9 and the upper-case
  letters A-Z only.
\<close>

theorem base36_round_trip:
  assumes "0 \<le> n"
  shows "to_base10 (to_base36 n) = Inr n \<and> set (to_base36 n) \<subseteq> set chars"
proof (cases "n = 0")
  case True
  then show ?thesis
    by (simp add: to_base10_def to_base36_def py_isdigit_def chars_def)
next
  case False
  with assms to_base10_loop_to_base36_loop [of n] to_base36_loop_chars [of "[]" n]
  show ?thesis by (simp add: to_base10_def to_base36_def)
qed

theorem base36_round_trip_witness:
  "to_base36 46655 = ''ZZZ'' \<and> to_base10 (to_base36 46655) = Inr 46655
   \<and> set (to_base36 46655) \<subseteq> set chars"
proof -
  have e: "to_base36 46655 = ''ZZZ''" by code_simp
  have h: "(0::int) \<le> 46655" by simp
  from base36_round_trip [OF h] e show ?thesis by blast
qed

section \<open>The aggregator: order, distances, ties\<close>

lemma insort_key_sorted_wrt:
  fixes f :: "'a \<Rightarrow> 'k::linorder"
  assumes key: "\<And>a b. f a < f b \<Longrightarrow> R a b"
    and "sorted_wrt R xs" and "\<forall>y \<in> set xs. R x y"
  shows "sorted_wrt R (insort_key f x xs)"
  using assms(2,3)
proof (induction xs)
  case Nil
  then show ?case by simp
next
  case (Cons y ys)
  show ?case
  proof (cases "f x \<le> f y")
    case True
    with Cons.prems show ?thesis by simp
  next
    case False
    then have "R y x" by (intro key) simp
    with Cons False show ?thesis by (auto simp: set_insort_key)
  qed
qed

lemma sort_key_sorted_wrt:
  fixes f :: "'a \<Rightarrow> 'k::linorder"
  assumes key: "\<And>a b. f a < f b \<Longrightarrow> R a b" and "sorted_wrt R xs"
  shows "sorted_wrt R (sort_key f xs)"
  using assms(2)
proof (induction xs)
  case Nil
  then show ?case by simp
next
  case (Cons x xs)
  then have "sorted_wrt R (sort_key f xs)" "\<forall>y \<in> set (sort_key f xs). R x y" by auto
  with key have "sorted_wrt R (insort_key f x (sort_key f xs))"
    by (intro insort_key_sorted_wrt) auto
  then show ?case by (simp add: sort_key_simps)
qed

lemma py_slice_to_take: "\<exists>m. py_slice_to xs k = take m xs"
  by (auto simp: py_slice_to_def)

lemma py_slice_to_length: "0 \<le> k \<Longrightarrow> int (length (py_slice_to xs k)) \<le> k"
  by (simp add: py_slice_to_def)

lemma find_primes_near_returns:
  "\<exists>r st. find_primes_near env primesdb_data number count direction = Some (Inr r, st)"
  using find_primes_near_total_inv [where I = "\<lambda>c r. True"] by blast

lemma find_closest_primes_unfold:
  obtains larger_primes smaller_primes st1 st2 where
    "find_primes_near env primesdb_data number count ''larger'' = Some (Inr larger_primes, st1)"
    "find_primes_near env st1 number count ''smaller'' = Some (Inr smaller_primes, st2)"
    "find_closest_primes env primesdb_data number count has_letters =
       Some (map (\<lambda>(prime, distance).
                    \<lparr>prime_base10 = prime,
                     prime_base36 = (if has_letters then to_base36 prime else py_str prime),
                     distance = distance\<rparr>)
              (py_slice_to
                 (sort_key snd
                    (map (\<lambda>prime. (prime, prime - number)) larger_primes
                     @ map (\<lambda>prime. (prime, number - prime)) smaller_primes))
                 count),
             st2)"
proof -
  obtain l st1 where l: "find_primes_near env primesdb_data number count ''larger'' = Some (Inr l, st1)"
    using find_primes_near_returns by blast
  obtain s st2 where s: "find_primes_near env st1 number count ''smaller'' = Some (Inr s, st2)"
    using find_primes_near_returns by blast
  show ?thesis
    by (rule that [OF l s]) (simp add: find_closest_primes_def l s)
qed

lemma candidates_distance:
  fixes number :: int
  assumes "\<forall>p \<in> set larger_primes. number < p" and "\<forall>p \<in> set smaller_primes. p < number"
    and "(p, d) \<in> set (map (\<lambda>prime. (prime, prime - number)) larger_primes
                       @ map (\<lambda>prime. (prime, number - prime)) smaller_primes)"
  shows "d = \<bar>p - number\<bar> \<and> 0 < d"
proof -
  from assms(3) consider "p \<in> set larger_primes" "d = p - number"
    | "p \<in> set smaller_primes" "d = number - p" by auto
  then show ?thesis
  proof cases
    case 1
    with assms(1) have "number < p" by blast
    with 1 show ?thesis by linarith
  next
    case 2
    with assms(2) have "p < number" by blast
    with 2 show ?thesis by linarith
  qed
qed

lemma candidates_ups_first:
  fixes number :: int
  assumes "\<forall>p \<in> set larger_primes. number < p" and "\<forall>p \<in> set smaller_primes. p < number"
  shows "sorted_wrt (\<lambda>a b. \<not> (snd a = snd b \<and> fst a < number \<and> number < fst b))
           (map (\<lambda>prime. (prime, prime - (number::int))) larger_primes
            @ map (\<lambda>prime. (prime, number - prime)) smaller_primes)"
proof -
  let ?R = "\<lambda>a b :: int \<times> int. \<not> (snd a = snd b \<and> fst a < number \<and> number < fst b)"
  let ?ups = "map (\<lambda>prime. (prime, prime - number)) larger_primes"
  let ?downs = "map (\<lambda>prime. (prime, number - prime)) smaller_primes"
  have ups: "number < fst a" if "a \<in> set ?ups" for a using that assms(1) by auto
  have downs: "fst b < number" if "b \<in> set ?downs" for b using that assms(2) by auto
  have "sorted_wrt ?R ?ups"
    by (rule sorted_wrt_mono_rel [where P = "\<lambda>_ _. True"]) (use ups in fastforce, simp)
  moreover have "sorted_wrt ?R ?downs"
    by (rule sorted_wrt_mono_rel [where P = "\<lambda>_ _. True"]) (use downs in fastforce, simp)
  moreover have "\<forall>a \<in> set ?ups. \<forall>b \<in> set ?downs. ?R a b"
    using ups by fastforce
  ultimately show ?thesis by (simp only: sorted_wrt_append)
qed

text \<open>
  Claim C3. For a count \<open>k \<ge> 1\<close> (and every start \<open>n\<close>, non-negative or not),
  \<open>find_closest_primes\<close> returns a list of at most \<open>k\<close> entries; the distance of each
  entry is the absolute difference between its prime and \<open>n\<close>, hence non-negative; and
  the entries are in non-decreasing order of distance.
\<close>

theorem closest_primes_sorted:
  assumes "1 \<le> count"
  shows "\<exists>out st. find_closest_primes env primesdb_data number count has_letters = Some (out, st)
           \<and> int (length out) \<le> count
           \<and> (\<forall>e \<in> set out. distance e = \<bar>prime_base10 e - number\<bar> \<and> 0 \<le> distance e)
           \<and> sorted (map distance out)"
proof -
  obtain larger_primes smaller_primes st1 st2 where
    l: "find_primes_near env primesdb_data number count ''larger'' = Some (Inr larger_primes, st1)"
    and s: "find_primes_near env st1 number count ''smaller'' = Some (Inr smaller_primes, st2)"
    and r: "find_closest_primes env primesdb_data number count has_letters =
       Some (map (\<lambda>(prime, distance).
                    \<lparr>prime_base10 = prime,
                     prime_base36 = (if has_letters then to_base36 prime else py_str prime),
                     distance = distance\<rparr>)
              (py_slice_to
                 (sort_key snd
                    (map (\<lambda>prime. (prime, prime - number)) larger_primes
                     @ map (\<lambda>prime. (prime, number - prime)) smaller_primes))
                 count),
             st2)"
    by (rule find_closest_primes_unfold)
  let ?cand = "map (\<lambda>prime. (prime, prime - number)) larger_primes
               @ map (\<lambda>prime. (prime, number - prime)) smaller_primes"
  let ?mk = "\<lambda>(prime, distance).
                    \<lparr>prime_base10 = prime,
                     prime_base36 = (if has_letters then to_base36 prime else py_str prime),
                     distance = distance\<rparr>"
  let ?cut = "py_slice_to (sort_key snd ?cand) count"
  let ?out = "map ?mk ?cut"
  obtain m where m: "?cut = take m (sort_key snd ?cand)"
    using py_slice_to_take by blast
  have up: "\<forall>p \<in> set larger_primes. number < p" using l by (rule larger_above)
  have down: "\<forall>p \<in> set smaller_primes. p < number" using s by (rule smaller_below)
  have len: "int (length ?out) \<le> count"
    using assms py_slice_to_length [of count "sort_key snd ?cand"] by simp
  have sub: "set ?cut \<subseteq> set ?cand"
    using set_take_subset [of m "sort_key snd ?cand"] by (simp only: m set_sort)
  have dist: "distance e = \<bar>prime_base10 e - number\<bar> \<and> 0 \<le> distance e" if "e \<in> set ?out" for e
  proof -
    from that obtain p d where pd: "(p, d) \<in> set ?cut" "e = ?mk (p, d)" by auto
    with sub have "(p, d) \<in> set ?cand" by blast
    from candidates_distance [OF up down this] pd(2) show ?thesis by simp
  qed
  have "map distance ?out = map snd ?cut" by (simp add: case_prod_beta)
  also have "\<dots> = take m (map snd (sort_key snd ?cand))" by (simp only: m take_map)
  finally have "sorted (map distance ?out)"
    using sorted_sort_key [of snd ?cand] by (simp only: sorted_wrt_take)
  with r len dist show ?thesis by blast
qed

theorem closest_primes_sorted_witness:
  "find_closest_primes Load_failed (Some []) 9 4 True =
     Some ([\<lparr>prime_base10 = 11, prime_base36 = ''B'', distance = 2\<rparr>,
            \<lparr>prime_base10 = 7, prime_base36 = ''7'', distance = 2\<rparr>,
            \<lparr>prime_base10 = 13, prime_base36 = ''D'', distance = 4\<rparr>,
            \<lparr>prime_base10 = 5, prime_base36 = ''5'', distance = 4\<rparr>], Some [])
   \<and> (\<exists>out st. find_closest_primes Load_failed (Some []) 9 4 True = Some (out, st)
         \<and> int (length out) \<le> 4
         \<and> (\<forall>e \<in> set out. distance e = \<bar>prime_base10 e - 9\<bar> \<and> 0 \<le> distance e)
         \<and> sorted (map distance out))"
proof -
  have e: "find_closest_primes Load_failed (Some []) 9 4 True =
     Some ([\<lparr>prime_base10 = 11, prime_base36 = ''B'', distance = 2\<rparr>,
            \<lparr>prime_base10 = 7, prime_base36 = ''7'', distance = 2\<rparr>,
            \<lparr>prime_base10 = 13, prime_base36 = ''D'', distance = 4\<rparr>,
            \<lparr>prime_base10 = 5, prime_base36 = ''5'', distance = 4\<rparr>], Some [])"
    by code_simp
  have h: "(1::int) \<le> 4" by simp
  from closest_primes_sorted [OF h, of Load_failed "Some []" 9 True] e
  show ?thesis by blast
qed

text \<open>
  Claim C7. In the list \<open>find_closest_primes\<close> returns, an entry whose prime lies above
  \<open>n\<close> stands before every entry at the same distance whose prime lies below \<open>n\<close>:
  the upward primes are put into the candidate list first, the sort by distance is
  stable, and the truncation keeps a prefix.
\<close>

theorem upward_first_on_ties:
  assumes out: "find_closest_primes env primesdb_data number count has_letters = Some (out, st)"
    and i: "i < length out" and j: "j < length out"
    and above: "number < prime_base10 (out ! i)"
    and below: "prime_base10 (out ! j) < number"
    and tie: "distance (out ! i) = distance (out ! j)"
  shows "i < j"
proof -
  obtain larger_primes smaller_primes st1 st2 where
    l: "find_primes_near env primesdb_data number count ''larger'' = Some (Inr larger_primes, st1)"
    and s: "find_primes_near env st1 number count ''smaller'' = Some (Inr smaller_primes, st2)"
    and r: "find_closest_primes env primesdb_data number count has_letters =
       Some (map (\<lambda>(prime, distance).
                    \<lparr>prime_base10 = prime,
                     prime_base36 = (if has_letters then to_base36 prime else py_str prime),
                     distance = distance\<rparr>)
              (py_slice_to
                 (sort_key snd
                    (map (\<lambda>prime. (prime, prime - number)) larger_primes
                     @ map (\<lambda>prime. (prime, number - prime)) smaller_primes))
                 count),
             st2)"
    by (rule find_closest_primes_unfold)
  let ?cand = "map (\<lambda>prime. (prime, prime - number)) larger_primes
               @ map (\<lambda>prime. (prime, number - prime)) smaller_primes"
  let ?mk = "\<lambda>(prime, distance).
                    \<lparr>prime_base10 = prime,
                     prime_base36 = (if has_letters then to_base36 prime else py_str prime),
                     distance = distance\<rparr>"
  let ?cut = "py_slice_to (sort_key snd ?cand) count"
  let ?R = "\<lambda>a b :: int \<times> int. \<not> (snd a = snd b \<and> fst a < number \<and> number < fst b)"
  obtain m where m: "?cut = take m (sort_key snd ?cand)"
    using py_slice_to_take by blast
  have up: "\<forall>p \<in> set larger_primes. number < p" using l by (rule larger_above)
  have down: "\<forall>p \<in> set smaller_primes. p < number" using s by (rule smaller_below)
  have "sorted_wrt ?R ?cand" using up down by (rule candidates_ups_first)
  then have "sorted_wrt ?R (sort_key snd ?cand)"
    by (rule sort_key_sorted_wrt [rotated]) simp
  then have sw: "sorted_wrt ?R ?cut" by (simp only: m sorted_wrt_take)
  from out r have o: "out = map ?mk ?cut" by simp
  with i j have ij: "i < length ?cut" "j < length ?cut" by simp_all
  have oi: "prime_base10 (out ! i) = fst (?cut ! i)" "distance (out ! i) = snd (?cut ! i)"
    using ij(1) by (simp_all add: o case_prod_beta)
  have oj: "prime_base10 (out ! j) = fst (?cut ! j)" "distance (out ! j) = snd (?cut ! j)"
    using ij(2) by (simp_all add: o case_prod_beta)
  show ?thesis
  proof (rule ccontr)
    assume "\<not> i < j"
    then consider "i = j" | "j < i" by linarith
    then show False
    proof cases
      case 1
      with above below show False by simp
    next
      case 2
      from sorted_wrt_nth_less [OF sw 2 ij(1)]
      have "\<not> (snd (?cut ! j) = snd (?cut ! i) \<and> fst (?cut ! j) < number \<and> number < fst (?cut ! i))" .
      with above below tie oi oj show False by simp
    qed
  qed
qed

theorem upward_first_on_ties_witness:
  "find_closest_primes Load_failed (Some []) 9 4 True =
     Some ([\<lparr>prime_base10 = 11, prime_base36 = ''B'', distance = 2\<rparr>,
            \<lparr>prime_base10 = 7, prime_base36 = ''7'', distance = 2\<rparr>,
            \<lparr>prime_base10 = 13, prime_base36 = ''D'', distance = 4\<rparr>,
            \<lparr>prime_base10 = 5, prime_base36 = ''5'', distance = 4\<rparr>], Some [])
   \<and> (0::nat) < 1"
proof -
  have e: "find_closest_primes Load_failed (Some []) 9 4 True =
     Some ([\<lparr>prime_base10 = 11, prime_base36 = ''B'', distance = 2\<rparr>,
            \<lparr>prime_base10 = 7, prime_base36 = ''7'', distance = 2\<rparr>,
            \<lparr>prime_base10 = 13, prime_base36 = ''D'', distance = 4\<rparr>,
            \<lparr>prime_base10 = 5, prime_base36 = ''5'', distance = 4\<rparr>], Some [])"
    by code_simp
  have "(0::nat) < 1" by (rule upward_first_on_ties [OF e]) simp_all
  with e show ?thesis by blast
qed

end
